theory Spec2Isabelle
  imports Main
begin

section \<open>JavaScript values used by the recording service\<close>

text \<open>
  The variables of \<^verbatim>\<open>sessionRecordingService.js\<close> hold \<^verbatim>\<open>null\<close>,
  \<^verbatim>\<open>undefined\<close> or a Number. Timestamps are whole milliseconds, so a Number is
  modelled as an unbounded \<open>int\<close> (exact for doubles below \<open>2^53\<close>), plus
  \<open>NaN\<close>, which arithmetic on \<^verbatim>\<open>undefined\<close> produces.
\<close>

datatype jsval = Null | Undefined | NaN | Num int

text \<open>Truthiness as tested by \<^verbatim>\<open>if (v)\<close> and \<^verbatim>\<open>!v\<close>: \<^verbatim>\<open>null\<close>,
  \<^verbatim>\<open>undefined\<close>, \<^verbatim>\<open>NaN\<close> and \<^verbatim>\<open>0\<close> are falsy.\<close>

fun truthy :: "jsval \<Rightarrow> bool" where
  "truthy (Num n) = (n \<noteq> 0)"
| "truthy Null = False"
| "truthy Undefined = False"
| "truthy NaN = False"

text \<open>ToNumber: \<^verbatim>\<open>null\<close> becomes \<open>0\<close>, \<^verbatim>\<open>undefined\<close> becomes \<open>NaN\<close>.\<close>

fun ToNumber :: "jsval \<Rightarrow> jsval" where
  "ToNumber Null = Num 0"
| "ToNumber Undefined = NaN"
| "ToNumber NaN = NaN"
| "ToNumber (Num n) = Num n"

fun num_add :: "jsval \<Rightarrow> jsval \<Rightarrow> jsval" where
  "num_add (Num a) (Num b) = Num (a + b)"
| "num_add _ _ = NaN"

fun num_sub :: "jsval \<Rightarrow> jsval \<Rightarrow> jsval" where
  "num_sub (Num a) (Num b) = Num (a - b)"
| "num_sub _ _ = NaN"

fun num_lt :: "jsval \<Rightarrow> jsval \<Rightarrow> bool" where
  "num_lt (Num a) (Num b) = (a < b)"
| "num_lt _ _ = False"

text \<open>The operators \<^verbatim>\<open>+\<close>, \<^verbatim>\<open>-\<close> and \<^verbatim>\<open><\<close> on operands that are
  \<^verbatim>\<open>null\<close>, \<^verbatim>\<open>undefined\<close> or Numbers: both sides go through ToNumber, any
  \<open>NaN\<close> makes the sum \<open>NaN\<close> and the comparison false.\<close>

definition js_add :: "jsval \<Rightarrow> jsval \<Rightarrow> jsval" where
  "js_add a b = num_add (ToNumber a) (ToNumber b)"

definition js_sub :: "jsval \<Rightarrow> jsval \<Rightarrow> jsval" where
  "js_sub a b = num_sub (ToNumber a) (ToNumber b)"

definition js_lt :: "jsval \<Rightarrow> jsval \<Rightarrow> bool" where
  "js_lt a b = num_lt (ToNumber a) (ToNumber b)"

section \<open>The display and the encoder\<close>

text \<open>What \<^verbatim>\<open>guac.getDisplay()\<close> exposes to the service: the cursor position and the
  current contents, which \<^verbatim>\<open>flatten()\<close> returns as a canvas of type \<open>'c\<close>.\<close>

record 'c display =
  cursorX :: int
  cursorY :: int
  contents :: 'c

definition flatten :: "'c display \<Rightarrow> 'c" where
  "flatten d = contents d"

text \<open>Modelled from the spec: the encoder object \<^verbatim>\<open>GIF\<close> is not part of the source
  file. Following section 6 of the specification it accepts frames with a delay, accepts
  a render trigger, and has listeners for its completion notification, which it emits
  once for a rendering it was asked for: \<open>rendering\<close> is set by \<^verbatim>\<open>render()\<close> and
  cleared when the encoder completes. A listener is the closure
  \<^verbatim>\<open>recordingComplete\<close>, identified by the deferred it resolves.\<close>

record 'c GIF =
  frames :: "('c \<times> jsval) list"
  finished_listeners :: "nat list"
  rendering :: bool

definition new_GIF :: "'c GIF" where
  "new_GIF = \<lparr>frames = [], finished_listeners = [], rendering = False\<rparr>"

definition gif_addFrame :: "'c \<Rightarrow> jsval \<Rightarrow> 'c GIF \<Rightarrow> 'c GIF" where
  "gif_addFrame canvas delay g = g\<lparr>frames := frames g @ [(canvas, delay)]\<rparr>"

definition gif_on_finished :: "nat \<Rightarrow> 'c GIF \<Rightarrow> 'c GIF" where
  "gif_on_finished listener g = g\<lparr>finished_listeners := finished_listeners g @ [listener]\<rparr>"

definition gif_render :: "'c GIF \<Rightarrow> 'c GIF" where
  "gif_render g = g\<lparr>rendering := True\<rparr>"

definition gif_complete :: "'c GIF \<Rightarrow> 'c GIF" where
  "gif_complete g = g\<lparr>rendering := False\<rparr>"

section \<open>The Recording object and addFrame\<close>

definition MINIMUM_FRAME_DELAY :: int where
  "MINIMUM_FRAME_DELAY = 20"

text \<open>The closure variables \<^verbatim>\<open>lastFrameTimestamp\<close> and
  \<^verbatim>\<open>lastFrameLocalTimestamp\<close> and the fields \<^verbatim>\<open>gif\<close> and
  \<^verbatim>\<open>mouseCheckInterval\<close> (an interval id, or \<open>None\<close> for \<^verbatim>\<open>null\<close>).
  The field \<^verbatim>\<open>client\<close> is left out: the model has one client.\<close>

record 'c Recording =
  lastFrameTimestamp :: jsval
  lastFrameLocalTimestamp :: jsval
  gif :: "'c GIF"
  mouseCheckInterval :: "nat option"

definition new_Recording :: "'c Recording" where
  "new_Recording = \<lparr>lastFrameTimestamp = Null, lastFrameLocalTimestamp = Null,
     gif = new_GIF, mouseCheckInterval = None\<rparr>"

text \<open>Lines 132 to 135: the value of \<^verbatim>\<open>timestamp\<close> after the inner \<^verbatim>\<open>if\<close>,
  inside the branch guarded by \<^verbatim>\<open>if (lastFrameTimestamp)\<close>. The JavaScript
  \<^verbatim>\<open>a + b - c\<close> associates to the left.\<close>

definition frameTimestamp :: "int \<Rightarrow> jsval \<Rightarrow> 'c Recording \<Rightarrow> jsval" where
  "frameTimestamp localTimestamp timestamp r =
     (if \<not> truthy timestamp
      then js_sub (js_add (Num localTimestamp) (lastFrameTimestamp r)) (lastFrameLocalTimestamp r)
      else timestamp)"

text \<open>Line 138: the delay computed in that branch.\<close>

definition computedDelay :: "int \<Rightarrow> jsval \<Rightarrow> 'c Recording \<Rightarrow> jsval" where
  "computedDelay localTimestamp timestamp r =
     js_sub (frameTimestamp localTimestamp timestamp r) (lastFrameTimestamp r)"

text \<open>Lines 146 to 156: flatten the display, hand the canvas and the delay to the
  encoder, record both timestamps.\<close>

definition emitFrame :: "int \<Rightarrow> 'c display \<Rightarrow> jsval \<Rightarrow> jsval \<Rightarrow> 'c Recording \<Rightarrow> 'c Recording" where
  "emitFrame localTimestamp guac timestamp frameDelay r =
     r\<lparr>gif := gif_addFrame (flatten guac) frameDelay (gif r),
       lastFrameTimestamp := timestamp,
       lastFrameLocalTimestamp := Num localTimestamp\<rparr>"

text \<open>\<^verbatim>\<open>Recording.addFrame(guac, timestamp)\<close>, lines 123 to 158. The first argument is
  the value read from \<^verbatim>\<open>new Date().getTime()\<close>; an omitted \<^verbatim>\<open>timestamp\<close> is
  \<open>Undefined\<close>. The early \<^verbatim>\<open>return\<close> of line 142 leaves the object as it was.\<close>

definition addFrame :: "int \<Rightarrow> 'c display \<Rightarrow> jsval \<Rightarrow> 'c Recording \<Rightarrow> 'c Recording" where
  "addFrame localTimestamp guac timestamp r =
     (if truthy (lastFrameTimestamp r) then
        (if js_lt (computedDelay localTimestamp timestamp r) (Num MINIMUM_FRAME_DELAY)
         then r
         else emitFrame localTimestamp guac
                (frameTimestamp localTimestamp timestamp r)
                (computedDelay localTimestamp timestamp r) r)
      else emitFrame localTimestamp guac timestamp (Num 0) r)"

text \<open>A sequence of calls on one Recording, each with its wall-clock reading, the
  display at that moment and the timestamp argument.\<close>

fun addFrames :: "(int \<times> 'c display \<times> jsval) list \<Rightarrow> 'c Recording \<Rightarrow> 'c Recording" where
  "addFrames [] r = r"
| "addFrames ((localTimestamp, guac, timestamp) # calls) r =
     addFrames calls (addFrame localTimestamp guac timestamp r)"

text \<open>The delays handed to the encoder so far.\<close>

definition delays :: "'c Recording \<Rightarrow> jsval list" where
  "delays r = map snd (frames (gif r))"

section \<open>startRecording, stopRecording and what calls the handlers\<close>

text \<open>The closure \<^verbatim>\<open>checkMouse\<close> that \<^verbatim>\<open>startRecording\<close> passes to
  \<^verbatim>\<open>window.setInterval\<close>: the Recording it captured (by its address) and its
  variables \<^verbatim>\<open>x\<close> and \<^verbatim>\<open>y\<close>.\<close>

record mouse_poll =
  poll_recording :: nat
  poll_x :: int
  poll_y :: int

text \<open>The objects the service reads and writes, for one client: the display of
  \<^verbatim>\<open>guac\<close>; its property \<^verbatim>\<open>onsync\<close> (\<open>None\<close> for \<^verbatim>\<open>null\<close>,
  \<open>Some r\<close> for the closure \<^verbatim>\<open>writeFrame\<close> that captured Recording \<open>r\<close>); the
  intervals registered with \<^verbatim>\<open>window\<close>; the Recording objects by address; the
  deferreds made by \<^verbatim>\<open>$q.defer()\<close>, each pending (\<open>None\<close>) or resolved with a
  blob of type \<open>'b\<close>.\<close>

record ('c, 'b) world =
  guac_display :: "'c display"
  onsync :: "nat option"
  window_intervals :: "nat \<rightharpoonup> mouse_poll"
  next_interval :: nat
  recordings :: "nat \<rightharpoonup> 'c Recording"
  next_recording :: nat
  deferreds :: "nat \<rightharpoonup> 'b option"
  next_deferred :: nat

definition init_world :: "'c display \<Rightarrow> ('c, 'b) world" where
  "init_world d = \<lparr>guac_display = d, onsync = None, window_intervals = Map.empty,
     next_interval = 0, recordings = Map.empty, next_recording = 0,
     deferreds = Map.empty, next_deferred = 0\<rparr>"

text \<open>A method call on the Recording at address \<open>rid\<close>.\<close>

definition on_recording ::
  "nat \<Rightarrow> ('c Recording \<Rightarrow> 'c Recording) \<Rightarrow> ('c, 'b) world \<Rightarrow> ('c, 'b) world" where
  "on_recording rid f w =
     (case recordings w rid of
        None \<Rightarrow> w
      | Some r \<Rightarrow> w\<lparr>recordings := (recordings w)(rid \<mapsto> f r)\<rparr>)"

text \<open>\<^verbatim>\<open>service.startRecording(client)\<close>, lines 175 to 203: a new Recording, the
  sync handler installed over whatever \<^verbatim>\<open>guac.onsync\<close> held, the cursor position
  read into \<^verbatim>\<open>x\<close> and \<^verbatim>\<open>y\<close>, the poll registered and its id kept in
  \<^verbatim>\<open>mouseCheckInterval\<close>. Returns the world and the Recording's address.
  \<^verbatim>\<open>window.setInterval\<close> is taken to return an id it never returned before.\<close>

definition startRecording :: "('c, 'b) world \<Rightarrow> ('c, 'b) world \<times> nat" where
  "startRecording w =
     (let rid = next_recording w;
          i = next_interval w;
          d = guac_display w
      in (w\<lparr>recordings := (recordings w)(rid \<mapsto> new_Recording\<lparr>mouseCheckInterval := Some i\<rparr>),
            next_recording := Suc rid,
            onsync := Some rid,
            window_intervals := (window_intervals w)(i \<mapsto>
               \<lparr>poll_recording = rid, poll_x = cursorX d, poll_y = cursorY d\<rparr>),
            next_interval := Suc i\<rparr>, rid))"

text \<open>The handler \<^verbatim>\<open>writeFrame(timestamp)\<close> of lines 183 to 185, for the Recording it
  captured, run at wall-clock time \<open>now\<close>.\<close>

definition writeFrame :: "nat \<Rightarrow> jsval \<Rightarrow> int \<Rightarrow> ('c, 'b) world \<Rightarrow> ('c, 'b) world" where
  "writeFrame rid timestamp now w = on_recording rid (addFrame now (guac_display w) timestamp) w"

text \<open>The closure \<^verbatim>\<open>checkMouse()\<close> of lines 193 to 199, registered under id \<open>i\<close>, run
  at wall-clock time \<open>now\<close>: \<^verbatim>\<open>addFrame\<close> without a timestamp when the cursor left
  \<^verbatim>\<open>(x, y)\<close>, then \<^verbatim>\<open>x\<close> and \<^verbatim>\<open>y\<close> updated.\<close>

definition checkMouse :: "nat \<Rightarrow> mouse_poll \<Rightarrow> int \<Rightarrow> ('c, 'b) world \<Rightarrow> ('c, 'b) world" where
  "checkMouse i c now w =
     (let d = guac_display w in
      if poll_x c \<noteq> cursorX d \<or> poll_y c \<noteq> cursorY d then
        (let w1 = on_recording (poll_recording c) (addFrame now d Undefined) w
         in w1\<lparr>window_intervals := (window_intervals w1)(i \<mapsto>
                  c\<lparr>poll_x := cursorX d, poll_y := cursorY d\<rparr>)\<rparr>)
      else w)"

text \<open>\<^verbatim>\<open>window.clearInterval(id)\<close>; with \<^verbatim>\<open>null\<close> it clears nothing.\<close>

definition clearInterval :: "nat option \<Rightarrow> (nat \<rightharpoonup> mouse_poll) \<Rightarrow> (nat \<rightharpoonup> mouse_poll)" where
  "clearInterval h t = (case h of None \<Rightarrow> t | Some i \<Rightarrow> t(i := None))"

text \<open>\<^verbatim>\<open>service.stopRecording(recording)\<close>, lines 219 to 242, line by line: a new
  pending deferred, \<^verbatim>\<open>guac.onsync = null\<close>, the poll cleared, the listener
  \<^verbatim>\<open>recordingComplete\<close> added to the encoder, \<^verbatim>\<open>render()\<close> called, the promise
  returned. \<open>None\<close> is the TypeError of line 224 when the argument is no Recording;
  nothing has been written at that point.\<close>

definition stopRecording :: "nat \<Rightarrow> ('c, 'b) world \<Rightarrow> (('c, 'b) world \<times> nat) option" where
  "stopRecording rid w =
     (case recordings w rid of
        None \<Rightarrow> None
      | Some r \<Rightarrow>
         (let renderingProcess = next_deferred w;
              w1 = w\<lparr>deferreds := (deferreds w)(renderingProcess \<mapsto> None),
                     next_deferred := Suc renderingProcess\<rparr>;
              w2 = w1\<lparr>onsync := None\<rparr>;
              w3 = w2\<lparr>window_intervals :=
                       clearInterval (mouseCheckInterval r) (window_intervals w2)\<rparr>;
              w4 = on_recording rid
                     (\<lambda>r. r\<lparr>gif := gif_on_finished renderingProcess (gif r)\<rparr>) w3;
              w5 = on_recording rid (\<lambda>r. r\<lparr>gif := gif_render (gif r)\<rparr>) w4
          in Some (w5, renderingProcess)))"

text \<open>The method \<^verbatim>\<open>resolve\<close> of a deferred of \<^verbatim>\<open>$q\<close>: a deferred that is
  settled ignores it.\<close>

definition resolve :: "nat \<Rightarrow> 'b \<Rightarrow> (nat \<rightharpoonup> 'b option) \<Rightarrow> (nat \<rightharpoonup> 'b option)" where
  "resolve p blob ds = (case ds p of Some None \<Rightarrow> ds(p \<mapsto> Some blob) | _ \<Rightarrow> ds)"

text \<open>The listener \<^verbatim>\<open>recordingComplete(blob)\<close> of lines 233 to 235, for the
  deferred \<^verbatim>\<open>renderingProcess\<close> it captured.\<close>

definition recordingComplete :: "nat \<Rightarrow> 'b \<Rightarrow> ('c, 'b) world \<Rightarrow> ('c, 'b) world" where
  "recordingComplete renderingProcess blob w =
     w\<lparr>deferreds := resolve renderingProcess blob (deferreds w)\<rparr>"

text \<open>Modelled from the spec: the parts that call the handlers are not in the source
  file. The client calls \<^verbatim>\<open>onsync\<close> with the timestamp of a sync when the property is
  not \<^verbatim>\<open>null\<close>; the window runs the callback of an interval that is still
  registered; the encoder of a Recording, when it was asked to render, completes and
  calls every listener of its completion with the blob, in the order they were added; an
  encoder that was not asked to render notifies nothing. Handlers run one at a time, each
  to its end (section 5), so an event is one step. \<open>Start\<close> and \<open>Stop\<close> are the
  calls of the host UI; \<open>Display\<close> is a change of the display (contents or cursor).\<close>

datatype ('c, 'b) action =
    Start
  | Stop nat
  | Sync jsval int
  | Tick nat int
  | Display "'c display"
  | Finished nat 'b

text \<open>Modelled from the spec: the completion of the encoder of Recording \<open>rid\<close> with
  the artifact \<open>blob\<close> (section 6).\<close>

definition emit_finished :: "nat \<Rightarrow> 'b \<Rightarrow> ('c, 'b) world \<Rightarrow> ('c, 'b) world" where
  "emit_finished rid blob w =
     (case recordings w rid of
        None \<Rightarrow> w
      | Some r \<Rightarrow>
          if rendering (gif r) then
            foldl (\<lambda>w listener. recordingComplete listener blob w)
              (on_recording rid (\<lambda>r. r\<lparr>gif := gif_complete (gif r)\<rparr>) w)
              (finished_listeners (gif r))
          else w)"

fun step :: "('c, 'b) action \<Rightarrow> ('c, 'b) world \<Rightarrow> ('c, 'b) world" where
  "step Start w = fst (startRecording w)"
| "step (Stop rid) w = (case stopRecording rid w of None \<Rightarrow> w | Some (w', p) \<Rightarrow> w')"
| "step (Sync timestamp now) w =
     (case onsync w of None \<Rightarrow> w | Some rid \<Rightarrow> writeFrame rid timestamp now w)"
| "step (Tick i now) w =
     (case window_intervals w i of None \<Rightarrow> w | Some c \<Rightarrow> checkMouse i c now w)"
| "step (Display d) w = w\<lparr>guac_display := d\<rparr>"
| "step (Finished rid blob) w = emit_finished rid blob w"

fun run :: "('c, 'b) action list \<Rightarrow> ('c, 'b) world \<Rightarrow> ('c, 'b) world" where
  "run [] w = w"
| "run (a # as) w = run as (step a w)"

text \<open>The blob of the first completion of the encoder of Recording \<open>rid\<close> in a trace.\<close>

fun first_finished :: "nat \<Rightarrow> ('c, 'b) action list \<Rightarrow> 'b option" where
  "first_finished rid [] = None"
| "first_finished rid (Finished r blob # as) =
     (if r = rid then Some blob else first_finished rid as)"
| "first_finished rid (_ # as) = first_finished rid as"

text \<open>What \<^verbatim>\<open>addFrame\<close> reads and writes of a Recording: the two timestamps and the
  frames given to the encoder.\<close>

definition capture_state :: "'c Recording \<Rightarrow> jsval \<times> jsval \<times> ('c \<times> jsval) list" where
  "capture_state r = (lastFrameTimestamp r, lastFrameLocalTimestamp r, frames (gif r))"

text \<open>No handler that captured Recording \<open>rid\<close> is installed or registered.\<close>

definition detached :: "nat \<Rightarrow> ('c, 'b) world \<Rightarrow> bool" where
  "detached rid w \<longleftrightarrow>
     onsync w \<noteq> Some rid \<and> (\<forall>i c. window_intervals w i = Some c \<longrightarrow> poll_recording c \<noteq> rid)"

text \<open>Two Recordings that no later call can tell apart: they agree on everything except
  that \<^verbatim>\<open>lastFrameTimestamp\<close> may hold different falsy values.\<close>

definition equivalent :: "'c Recording \<Rightarrow> 'c Recording \<Rightarrow> bool" where
  "equivalent r r' \<longleftrightarrow>
     gif r = gif r' \<and> mouseCheckInterval r = mouseCheckInterval r' \<and>
     lastFrameLocalTimestamp r = lastFrameLocalTimestamp r' \<and>
     (lastFrameTimestamp r = lastFrameTimestamp r' \<or>
      \<not> truthy (lastFrameTimestamp r) \<and> \<not> truthy (lastFrameTimestamp r'))"

text \<open>A delay that is \<open>0\<close> or at least the minimum.\<close>

fun zero_or_minimum :: "jsval \<Rightarrow> bool" where
  "zero_or_minimum (Num n) = (n = 0 \<or> MINIMUM_FRAME_DELAY \<le> n)"
| "zero_or_minimum _ = False"

text \<open>What every Recording reached by calls with a wall-clock reading satisfies: a truthy
  \<^verbatim>\<open>lastFrameTimestamp\<close> comes with a numeric \<^verbatim>\<open>lastFrameLocalTimestamp\<close>, and
  every delay given to the encoder is \<open>0\<close> or at least the minimum.\<close>

fun is_Num :: "jsval \<Rightarrow> bool" where
  "is_Num (Num n) = True"
| "is_Num _ = False"

definition clocked :: "'c Recording \<Rightarrow> bool" where
  "clocked r \<longleftrightarrow>
     (truthy (lastFrameTimestamp r) \<longrightarrow> is_Num (lastFrameLocalTimestamp r)) \<and>
     list_all zero_or_minimum (delays r)"

text \<open>What every world reached from \<open>init_world\<close> satisfies: addresses of Recordings
  are below the next one to be given out; a registered poll belongs to an existing
  Recording whose \<^verbatim>\<open>mouseCheckInterval\<close> is the poll's id; the listeners of an encoder
  are deferreds that exist.\<close>

definition world_ok :: "('c, 'b) world \<Rightarrow> bool" where
  "world_ok w \<longleftrightarrow>
     (\<forall>r. recordings w r \<noteq> None \<longrightarrow> r < next_recording w) \<and>
     (\<forall>i c. window_intervals w i = Some c \<longrightarrow>
        (\<exists>rec. recordings w (poll_recording c) = Some rec \<and> mouseCheckInterval rec = Some i)) \<and>
     (\<forall>r rec p. recordings w r = Some rec \<longrightarrow> p \<in> set (finished_listeners (gif rec)) \<longrightarrow>
        p < next_deferred w)"

text \<open>The encoder of Recording \<open>rid\<close> has been asked to render and has not completed
  yet.\<close>

definition is_rendering :: "nat \<Rightarrow> ('c, 'b) world \<Rightarrow> bool" where
  "is_rendering rid w = (case recordings w rid of None \<Rightarrow> False | Some r \<Rightarrow> rendering (gif r))"

text \<open>The deferred \<open>p\<close> is pending, the encoder of Recording \<open>rid\<close> has its listener,
  and no other encoder has.\<close>

definition listening :: "nat \<Rightarrow> nat \<Rightarrow> ('c, 'b) world \<Rightarrow> bool" where
  "listening rid p w \<longleftrightarrow>
     (\<exists>rec. recordings w rid = Some rec \<and> p \<in> set (finished_listeners (gif rec))) \<and>
     (\<forall>r rec. recordings w r = Some rec \<longrightarrow> p \<in> set (finished_listeners (gif rec)) \<longrightarrow> r = rid) \<and>
     deferreds w p = Some None \<and> p < next_deferred w \<and> rid < next_recording w"

section \<open>Evaluation rules\<close>

lemmas js_simps = js_add_def js_sub_def js_lt_def

lemmas addFrame_simps = addFrame_def emitFrame_def computedDelay_def frameTimestamp_def
  gif_addFrame_def flatten_def MINIMUM_FRAME_DELAY_def js_simps

lemmas fresh_simps = new_Recording_def new_GIF_def

lemmas world_simps = startRecording_def stopRecording_def init_world_def checkMouse_def
  writeFrame_def on_recording_def clearInterval_def capture_state_def resolve_def
  gif_on_finished_def gif_render_def gif_complete_def recordingComplete_def
  emit_finished_def Let_def

lemma addFrame_falsy:
  "\<not> truthy (lastFrameTimestamp r) \<Longrightarrow> addFrame now d ts r = emitFrame now d ts (Num 0) r"
  by (simp add: addFrame_def)

lemma addFrame_mouseCheckInterval [simp]:
  "mouseCheckInterval (addFrame now d ts r) = mouseCheckInterval r"
  by (simp add: addFrame_def emitFrame_def)

lemma addFrame_listeners [simp]:
  "finished_listeners (gif (addFrame now d ts r)) = finished_listeners (gif r)"
  by (simp add: addFrame_def emitFrame_def gif_addFrame_def)

section \<open>The scenario with timestamps 0, 10 and 25\<close>

text \<open>
  C1. The specification's scenario expects the calls with session timestamps 0, 10 and 25
  on a fresh Recording to be accepted with delay 0, rejected, and accepted with delay 25.
  The code does otherwise: after the first frame \<^verbatim>\<open>lastFrameTimestamp\<close> is \<open>0\<close>,
  which \<^verbatim>\<open>if (lastFrameTimestamp)\<close> takes for "no frame yet", so the second call is
  accepted with delay 0; the third is then 15 ms after the second and is rejected. The
  encoder receives two frames with delays 0 and 0, whatever the wall clock reads.
\<close>

theorem scenario_0_10_25_delays:
  "delays (addFrames [(t0, d0, Num 0)] new_Recording) = [Num 0] \<and>
   delays (addFrames [(t0, d0, Num 0), (t1, d1, Num 10)] new_Recording) = [Num 0, Num 0] \<and>
   frames (gif (addFrames [(t0, d0, Num 0), (t1, d1, Num 10), (t2, d2, Num 25)] new_Recording))
     = [(contents d0, Num 0), (contents d1, Num 0)]"
  by (simp add: delays_def addFrame_simps fresh_simps)

text \<open>The same scenario moved away from timestamp 0 behaves as the specification says.\<close>

lemma scenario_1000_1010_1025_delays:
  "delays (addFrames [(t0, d0, Num 1000)] new_Recording) = [Num 0] \<and>
   delays (addFrames [(t0, d0, Num 1000), (t1, d1, Num 1010)] new_Recording) = [Num 0] \<and>
   frames (gif (addFrames [(t0, d0, Num 1000), (t1, d1, Num 1010), (t2, d2, Num 1025)] new_Recording))
     = [(contents d0, Num 0), (contents d2, Num 25)]"
  by (simp add: delays_def addFrame_simps fresh_simps)

section \<open>Delays between consecutive frames\<close>

text \<open>
  C2. The claim that the delay of every accepted frame after the first is the difference
  of the two timestamps and at least 20 fails on the code: with timestamps 0 and 10 both
  calls are accepted, the Recording holds timestamp 0 and then 10, and the second frame is
  given delay 0.
\<close>

theorem consecutive_frames_0_10:
  "lastFrameTimestamp (addFrame t0 d0 (Num 0) new_Recording) = Num 0 \<and>
   lastFrameTimestamp (addFrame t1 d1 (Num 10) (addFrame t0 d0 (Num 0) new_Recording)) = Num 10 \<and>
   frames (gif (addFrame t1 d1 (Num 10) (addFrame t0 d0 (Num 0) new_Recording)))
     = [(contents d0, Num 0), (contents d1, Num 0)]"
  by (simp add: addFrame_simps fresh_simps)

text \<open>Where the last timestamp is a Number other than 0 and the call supplies one, an
  accepted frame carries the difference of the two, which is at least the minimum.\<close>

lemma accepted_delay_is_difference:
  assumes "lastFrameTimestamp r = Num l" and "l \<noteq> 0" and "t \<noteq> 0"
    and "addFrame now d (Num t) r \<noteq> r"
  shows "frames (gif (addFrame now d (Num t) r)) = frames (gif r) @ [(flatten d, Num (t - l))]
    \<and> MINIMUM_FRAME_DELAY \<le> t - l
    \<and> lastFrameTimestamp (addFrame now d (Num t) r) = Num t
    \<and> lastFrameLocalTimestamp (addFrame now d (Num t) r) = Num now"
  using assms
  by (simp add: addFrame_def emitFrame_def computedDelay_def frameTimestamp_def
      gif_addFrame_def js_simps split: if_splits)

lemma accepted_delay_is_difference_witness:
  "frames (gif (addFrame 7 \<lparr>cursorX = 0, cursorY = 0, contents = True\<rparr> (Num 1025)
      (addFrame 3 \<lparr>cursorX = 0, cursorY = 0, contents = False\<rparr> (Num 1000) new_Recording)))
     = [(False, Num 0), (True, Num 25)]"
  using accepted_delay_is_difference [of
      "addFrame 3 \<lparr>cursorX = 0, cursorY = 0, contents = False\<rparr> (Num 1000) new_Recording"
      1000 1025 7 "\<lparr>cursorX = 0, cursorY = 0, contents = True\<rparr>"]
  by (simp add: addFrame_simps fresh_simps)

section \<open>The first call\<close>

text \<open>
  C3. The first call on a fresh Recording is accepted with delay 0 and records the
  wall-clock time, but with the timestamp omitted the code stores \<^verbatim>\<open>undefined\<close> in
  \<^verbatim>\<open>lastFrameTimestamp\<close> (line 155), not the wall-clock time the claim names.
\<close>

theorem first_call_without_timestamp:
  "frames (gif (addFrame now d Undefined new_Recording)) = [(contents d, Num 0)] \<and>
   lastFrameTimestamp (addFrame now d Undefined new_Recording) = Undefined \<and>
   lastFrameTimestamp (addFrame now d Undefined new_Recording) \<noteq> Num now \<and>
   lastFrameLocalTimestamp (addFrame now d Undefined new_Recording) = Num now"
  by (simp add: addFrame_simps fresh_simps)

text \<open>With a timestamp supplied the first call does what the claim says.\<close>

lemma first_call_with_timestamp:
  "frames (gif (addFrame now d (Num t) new_Recording)) = [(contents d, Num 0)] \<and>
   lastFrameTimestamp (addFrame now d (Num t) new_Recording) = Num t \<and>
   lastFrameLocalTimestamp (addFrame now d (Num t) new_Recording) = Num now"
  by (simp add: addFrame_simps fresh_simps)

text \<open>
  C4. Both timestamps are assigned together (lines 155 and 156), but not always to
  Numbers: when the cursor moves before the first sync, the poll calls \<^verbatim>\<open>addFrame\<close>
  without a timestamp, and the Recording is left with \<^verbatim>\<open>lastFrameTimestamp\<close>
  \<^verbatim>\<open>undefined\<close> next to a numeric \<^verbatim>\<open>lastFrameLocalTimestamp\<close>. The state is
  reached through \<^verbatim>\<open>startRecording\<close> and one tick of the poll.
\<close>

theorem poll_before_first_sync_state:
  "map_option capture_state
     (recordings
        (run [Start, Display \<lparr>cursorX = 1, cursorY = 0, contents = True\<rparr>, Tick 0 1000]
           (init_world \<lparr>cursorX = 0, cursorY = 0, contents = False\<rparr>)) 0)
   = Some (Undefined, Num 1000, [(True, Num 0)])"
  by (simp add: startRecording_def init_world_def checkMouse_def on_recording_def
      capture_state_def addFrame_simps fresh_simps)

section \<open>Calls without a timestamp\<close>

text \<open>
  C5. After a frame accepted with timestamp 0 at wall-clock time 100, a call without a
  timestamp at wall-clock time 105 would, by the claim, use the timestamp
  \<open>105 + (0 - 100) = 5\<close> and be rejected. The code never reaches the projection: the
  guard \<^verbatim>\<open>if (lastFrameTimestamp)\<close> fails, the frame is accepted with delay 0 and
  \<^verbatim>\<open>undefined\<close> is recorded. The same happens after a first frame that had no
  timestamp.
\<close>

theorem omitted_timestamp_not_projected:
  "frames (gif (addFrames [(100, d0, Num 0), (105, d1, Undefined)] new_Recording))
     = [(contents d0, Num 0), (contents d1, Num 0)] \<and>
   lastFrameTimestamp (addFrames [(100, d0, Num 0), (105, d1, Undefined)] new_Recording)
     = Undefined \<and>
   frames (gif (addFrames [(1000, d0, Undefined), (1005, d1, Undefined)] new_Recording))
     = [(contents d0, Num 0), (contents d1, Num 0)] \<and>
   lastFrameTimestamp (addFrames [(1000, d0, Undefined), (1005, d1, Undefined)] new_Recording)
     = Undefined"
  by (simp add: addFrame_simps fresh_simps)

text \<open>Where the last timestamp is a Number other than 0, the omitted timestamp is the
  projection of the wall clock, and the delay is the wall-clock time elapsed.\<close>

lemma omitted_timestamp_projection:
  assumes "lastFrameTimestamp r = Num l" and "l \<noteq> 0" and "lastFrameLocalTimestamp r = Num w"
  shows "frameTimestamp now Undefined r = Num (now + (l - w))
    \<and> computedDelay now Undefined r = Num (now - w)
    \<and> addFrame now d Undefined r =
        (if now - w < MINIMUM_FRAME_DELAY then r
         else emitFrame now d (Num (now + (l - w))) (Num (now - w)) r)"
  using assms
  by (simp add: addFrame_def computedDelay_def frameTimestamp_def js_simps add_diff_eq)

lemma omitted_timestamp_projection_witness:
  "addFrame 130 \<lparr>cursorX = 0, cursorY = 0, contents = True\<rparr> Undefined
      (addFrame 100 \<lparr>cursorX = 0, cursorY = 0, contents = False\<rparr> (Num 5000) new_Recording)
   = \<lparr>lastFrameTimestamp = Num 5030, lastFrameLocalTimestamp = Num 130,
      gif = \<lparr>frames = [(False, Num 0), (True, Num 30)], finished_listeners = [],
        rendering = False\<rparr>,
      mouseCheckInterval = None\<rparr>"
  using omitted_timestamp_projection [of
      "addFrame 100 \<lparr>cursorX = 0, cursorY = 0, contents = False\<rparr> (Num 5000) new_Recording"
      5000 100 130 "\<lparr>cursorX = 0, cursorY = 0, contents = True\<rparr>"]
  by (simp add: addFrame_simps fresh_simps)

section \<open>Rejected calls\<close>

text \<open>
  C6. A call whose delay relative to the last accepted frame is below the minimum is not
  always rejected. After a frame accepted with timestamp 0 at wall-clock time 100, the call
  with timestamp 10 at wall-clock time 110 has delay 10 (line 138 would compute it), but
  the guard \<^verbatim>\<open>if (lastFrameTimestamp)\<close> fails for the recorded 0: the call is
  accepted, both timestamps are overwritten and the encoder is given a second frame, with
  delay 0. The same happens 1 ms after a first frame that had no timestamp.
\<close>

theorem close_call_after_timestamp_0_accepted:
  "computedDelay 110 (Num 10) (addFrame 100 d0 (Num 0) new_Recording) = Num 10 \<and>
   capture_state (addFrame 100 d0 (Num 0) new_Recording)
     = (Num 0, Num 100, [(contents d0, Num 0)]) \<and>
   capture_state (addFrame 110 d1 (Num 10) (addFrame 100 d0 (Num 0) new_Recording))
     = (Num 10, Num 110, [(contents d0, Num 0), (contents d1, Num 0)]) \<and>
   capture_state (addFrames [(1000, d0, Undefined), (1001, d1, Undefined)] new_Recording)
     = (Undefined, Num 1001, [(contents d0, Num 0), (contents d1, Num 0)])"
  by (simp add: capture_state_def addFrame_simps fresh_simps)

text \<open>Where the guard of line 128 holds (the recorded timestamp is a Number other than
  0), a computed delay below \<^verbatim>\<open>MINIMUM_FRAME_DELAY\<close> does make \<^verbatim>\<open>addFrame\<close>
  return at line 142, and the Recording, with both timestamps and the frames given to the
  encoder, is exactly as before.\<close>

lemma rejected_call_changes_nothing:
  assumes "truthy (lastFrameTimestamp r)"
    and "js_lt (computedDelay now ts r) (Num MINIMUM_FRAME_DELAY)"
  shows "addFrame now d ts r = r"
  using assms by (simp add: addFrame_def)

lemma rejected_call_changes_nothing_witness:
  "truthy (lastFrameTimestamp
      (addFrame 100 \<lparr>cursorX = 0, cursorY = 0, contents = False\<rparr> (Num 1000) new_Recording)) \<and>
   js_lt (computedDelay 110 (Num 1010)
      (addFrame 100 \<lparr>cursorX = 0, cursorY = 0, contents = False\<rparr> (Num 1000) new_Recording))
     (Num MINIMUM_FRAME_DELAY) \<and>
   addFrame 110 \<lparr>cursorX = 0, cursorY = 0, contents = True\<rparr> (Num 1010)
      (addFrame 100 \<lparr>cursorX = 0, cursorY = 0, contents = False\<rparr> (Num 1000) new_Recording)
   = \<lparr>lastFrameTimestamp = Num 1000, lastFrameLocalTimestamp = Num 100,
      gif = \<lparr>frames = [(False, Num 0)], finished_listeners = [], rendering = False\<rparr>,
      mouseCheckInterval = None\<rparr>"
  using rejected_call_changes_nothing [of
      "addFrame 100 \<lparr>cursorX = 0, cursorY = 0, contents = False\<rparr> (Num 1000) new_Recording"
      110 "Num 1010" "\<lparr>cursorX = 0, cursorY = 0, contents = True\<rparr>"]
  by (simp add: addFrame_simps fresh_simps)

text \<open>In numbers: a supplied timestamp less than 20 after the last one, or a call
  without timestamp less than 20 ms of wall-clock time after the last frame.\<close>

lemma rejected_when_too_close:
  assumes "lastFrameTimestamp r = Num l" and "l \<noteq> 0"
  shows "t \<noteq> 0 \<Longrightarrow> t - l < 20 \<Longrightarrow> addFrame now d (Num t) r = r"
    and "lastFrameLocalTimestamp r = Num w \<Longrightarrow> now - w < 20 \<Longrightarrow> addFrame now d Undefined r = r"
  using assms
  by (simp_all add: addFrame_def computedDelay_def frameTimestamp_def js_simps
      MINIMUM_FRAME_DELAY_def)

section \<open>Timestamps that do not advance\<close>

text \<open>
  C7. A call whose timestamp does not advance past the last accepted frame is not always
  rejected. After a frame with timestamp 0, a second call with timestamp 0 (delay zero)
  or with timestamp -5 (delay negative) is accepted, with delay 0, because the guard
  \<^verbatim>\<open>if (lastFrameTimestamp)\<close> takes the recorded 0 for "no frame yet".
\<close>

theorem repeated_timestamp_accepted:
  "frames (gif (addFrames [(100, d0, Num 0), (101, d1, Num 0)] new_Recording))
     = [(contents d0, Num 0), (contents d1, Num 0)] \<and>
   frames (gif (addFrames [(100, d0, Num 0), (101, d1, Num (- 5))] new_Recording))
     = [(contents d0, Num 0), (contents d1, Num 0)]"
  by (simp add: addFrame_simps fresh_simps)

text \<open>What does hold for every interleaving of calls with and without timestamp: no call
  fails (\<open>addFrame\<close> is a total function), and every delay given to the encoder is a
  Number that is 0 or at least 20, so never negative.\<close>

lemma clocked_new: "clocked new_Recording"
  by (simp add: clocked_def delays_def fresh_simps)

lemma clocked_addFrame:
  assumes "clocked r"
  shows "clocked (addFrame now d ts r)"
proof (cases "truthy (lastFrameTimestamp r)")
  case False
  with assms show ?thesis
    by (simp add: addFrame_falsy clocked_def delays_def emitFrame_def gif_addFrame_def)
next
  case True
  then obtain l where l: "lastFrameTimestamp r = Num l" "l \<noteq> 0"
    by (cases "lastFrameTimestamp r") auto
  from True assms obtain w where w: "lastFrameLocalTimestamp r = Num w"
    by (cases "lastFrameLocalTimestamp r") (auto simp: clocked_def)
  show ?thesis
  proof (cases "truthy ts")
    case True
    then obtain t where "ts = Num t" "t \<noteq> 0"
      by (cases ts) auto
    with assms l show ?thesis
      by (simp add: addFrame_def clocked_def delays_def emitFrame_def gif_addFrame_def
          computedDelay_def frameTimestamp_def js_simps)
  next
    case False
    with assms l w show ?thesis
      by (simp add: addFrame_def clocked_def delays_def emitFrame_def gif_addFrame_def
          computedDelay_def frameTimestamp_def js_simps)
  qed
qed

lemma clocked_addFrames: "clocked r \<Longrightarrow> clocked (addFrames calls r)"
proof (induction calls arbitrary: r)
  case Nil
  then show ?case by simp
next
  case (Cons call calls)
  obtain now d ts where "call = (now, d, ts)"
    by (cases call) auto
  with Cons show ?case
    by (simp add: clocked_addFrame)
qed

lemma delays_zero_or_minimum:
  "list_all zero_or_minimum (delays (addFrames calls new_Recording))"
  using clocked_addFrames [OF clocked_new, of calls] by (simp add: clocked_def)

section \<open>Timestamp 0\<close>

lemma equivalent_addFrame:
  assumes "equivalent r r'"
  shows "equivalent (addFrame now d ts r) (addFrame now d ts r')"
proof (cases "truthy (lastFrameTimestamp r)")
  case True
  with assms have "lastFrameTimestamp r = lastFrameTimestamp r'"
    by (auto simp: equivalent_def)
  with assms show ?thesis
    by (simp add: equivalent_def addFrame_def emitFrame_def computedDelay_def
        frameTimestamp_def)
next
  case False
  with assms have "\<not> truthy (lastFrameTimestamp r')"
    by (auto simp: equivalent_def)
  with False assms show ?thesis
    by (simp add: addFrame_falsy emitFrame_def equivalent_def)
qed

lemma equivalent_addFrames:
  "equivalent r r' \<Longrightarrow> equivalent (addFrames calls r) (addFrames calls r')"
proof (induction calls arbitrary: r r')
  case Nil
  then show ?case by simp
next
  case (Cons call calls)
  obtain now d ts where call: "call = (now, d, ts)"
    by (cases call) auto
  have "equivalent (addFrame now d ts r) (addFrame now d ts r')"
    using Cons.prems by (rule equivalent_addFrame)
  then show ?case
    using Cons.IH call by simp
qed

lemma zero_equivalent_omitted:
  "equivalent (addFrame now d (Num 0) r) (addFrame now d Undefined r)"
  by (simp add: equivalent_def addFrame_def emitFrame_def computedDelay_def
      frameTimestamp_def)

text \<open>
  C10. A supplied timestamp 0 is treated as an omitted one: from any Recording, the call
  with timestamp 0 and the call without timestamp give the encoder the same frames, leave
  the same wall-clock time, and no later sequence of calls tells the two apart. And a
  Recording whose recorded timestamp is 0 takes the next call, whatever its timestamp and
  wall-clock time, as the first: the frame is accepted with delay 0, exactly as with
  \<^verbatim>\<open>lastFrameTimestamp\<close> \<^verbatim>\<open>null\<close>.
\<close>

theorem zero_timestamp_is_no_timestamp:
  "gif (addFrames calls (addFrame now d (Num 0) r))
     = gif (addFrames calls (addFrame now d Undefined r)) \<and>
   lastFrameLocalTimestamp (addFrames calls (addFrame now d (Num 0) r))
     = lastFrameLocalTimestamp (addFrames calls (addFrame now d Undefined r)) \<and>
   frames (gif (addFrame now' d' ts (r\<lparr>lastFrameTimestamp := Num 0\<rparr>)))
     = frames (gif r) @ [(flatten d', Num 0)] \<and>
   addFrame now' d' ts (r\<lparr>lastFrameTimestamp := Num 0\<rparr>)
     = addFrame now' d' ts (r\<lparr>lastFrameTimestamp := Null\<rparr>)"
proof -
  have "equivalent (addFrames calls (addFrame now d (Num 0) r))
          (addFrames calls (addFrame now d Undefined r))"
    by (rule equivalent_addFrames [OF zero_equivalent_omitted])
  then show ?thesis
    by (simp add: equivalent_def addFrame_def emitFrame_def gif_addFrame_def)
qed

section \<open>Worlds reached by the service\<close>

lemma recordings_on_recording [simp]:
  "recordings (on_recording rid f w) r =
     (if r = rid then map_option f (recordings w rid) else recordings w r)"
  by (simp add: on_recording_def split: option.splits)

lemma on_recording_fields [simp]:
  "onsync (on_recording rid f w) = onsync w"
  "window_intervals (on_recording rid f w) = window_intervals w"
  "next_interval (on_recording rid f w) = next_interval w"
  "next_recording (on_recording rid f w) = next_recording w"
  "deferreds (on_recording rid f w) = deferreds w"
  "next_deferred (on_recording rid f w) = next_deferred w"
  "guac_display (on_recording rid f w) = guac_display w"
  by (simp_all add: on_recording_def split: option.splits)

lemma capture_state_listener [simp]:
  "capture_state (r\<lparr>gif := gif_render (gif_on_finished p (gif r))\<rparr>) = capture_state r"
  "capture_state (r\<lparr>gif := gif_on_finished p (gif r)\<rparr>) = capture_state r"
  "capture_state (r\<lparr>gif := gif_render (gif r)\<rparr>) = capture_state r"
  "capture_state (r\<lparr>gif := gif_complete (gif r)\<rparr>) = capture_state r"
  by (simp_all add: capture_state_def gif_render_def gif_on_finished_def gif_complete_def)

lemma addFrame_rendering [simp]:
  "rendering (gif (addFrame now d ts r)) = rendering (gif r)"
  by (simp add: addFrame_def emitFrame_def gif_addFrame_def)

lemma foldl_recordingComplete:
  "foldl (\<lambda>w q. recordingComplete q b w) w ps =
     w\<lparr>deferreds := foldl (\<lambda>ds q. resolve q b ds) (deferreds w) ps\<rparr>"
  by (induction ps arbitrary: w) (simp_all add: recordingComplete_def)

lemma emit_finished_eq:
  "emit_finished rid b w =
     (case recordings w rid of
        None \<Rightarrow> w
      | Some r \<Rightarrow>
          if rendering (gif r) then
            (on_recording rid (\<lambda>r. r\<lparr>gif := gif_complete (gif r)\<rparr>) w)
              \<lparr>deferreds := foldl (\<lambda>ds q. resolve q b ds) (deferreds w)
                 (finished_listeners (gif r))\<rparr>
          else w)"
  by (simp add: emit_finished_def foldl_recordingComplete split: option.splits)

lemma world_ok_recD: "world_ok w \<Longrightarrow> recordings w r = Some rec \<Longrightarrow> r < next_recording w"
  unfolding world_ok_def by blast

lemma world_ok_pollD:
  "world_ok w \<Longrightarrow> window_intervals w i = Some c \<Longrightarrow>
   \<exists>rec. recordings w (poll_recording c) = Some rec \<and> mouseCheckInterval rec = Some i"
  unfolding world_ok_def by blast

lemma world_ok_listenerD:
  "world_ok w \<Longrightarrow> recordings w r = Some rec \<Longrightarrow> p \<in> set (finished_listeners (gif rec)) \<Longrightarrow>
   p < next_deferred w"
  unfolding world_ok_def by blast

lemma world_ok_on_recording:
  assumes "world_ok w"
    and keep: "\<And>r. mouseCheckInterval (f r) = mouseCheckInterval r"
      "\<And>r. finished_listeners (gif (f r)) = finished_listeners (gif r)"
  shows "world_ok (on_recording rid f w)"
  unfolding world_ok_def
proof (intro conjI allI impI)
  fix r assume "recordings (on_recording rid f w) r \<noteq> None"
  then obtain rec where "recordings w r = Some rec"
    by (auto split: if_splits)
  from world_ok_recD [OF assms(1) this] show "r < next_recording (on_recording rid f w)"
    by simp
next
  fix i c assume "window_intervals (on_recording rid f w) i = Some c"
  then have "window_intervals w i = Some c" by simp
  from world_ok_pollD [OF assms(1) this] obtain rec where
    "recordings w (poll_recording c) = Some rec" "mouseCheckInterval rec = Some i"
    by blast
  then show "\<exists>rec. recordings (on_recording rid f w) (poll_recording c) = Some rec \<and>
      mouseCheckInterval rec = Some i"
    by (auto simp: keep)
next
  fix r rec p
  assume r: "recordings (on_recording rid f w) r = Some rec"
    and p: "p \<in> set (finished_listeners (gif rec))"
  from r obtain rec0 where rec0: "recordings w r = Some rec0"
    "finished_listeners (gif rec) = finished_listeners (gif rec0)"
    by (auto simp: keep split: if_splits)
  with p world_ok_listenerD [OF assms(1) rec0(1), of p]
  show "p < next_deferred (on_recording rid f w)"
    by simp
qed

lemma world_ok_repoll:
  assumes "world_ok w" and "window_intervals w i = Some c" and "poll_recording c' = poll_recording c"
  shows "world_ok (w\<lparr>window_intervals := (window_intervals w)(i \<mapsto> c')\<rparr>)"
  unfolding world_ok_def
proof (intro conjI allI impI)
  fix r assume "recordings (w\<lparr>window_intervals := (window_intervals w)(i \<mapsto> c')\<rparr>) r \<noteq> None"
  then obtain rec where "recordings w r = Some rec" by auto
  from world_ok_recD [OF assms(1) this]
  show "r < next_recording (w\<lparr>window_intervals := (window_intervals w)(i \<mapsto> c')\<rparr>)"
    by simp
next
  fix j d
  assume "window_intervals (w\<lparr>window_intervals := (window_intervals w)(i \<mapsto> c')\<rparr>) j = Some d"
  then have "\<exists>d0. window_intervals w j = Some d0 \<and> poll_recording d = poll_recording d0"
    using assms(2,3) by (auto split: if_splits)
  then obtain d0 where d0: "window_intervals w j = Some d0" "poll_recording d = poll_recording d0"
    by blast
  from world_ok_pollD [OF assms(1) d0(1)] d0(2)
  show "\<exists>rec. recordings (w\<lparr>window_intervals := (window_intervals w)(i \<mapsto> c')\<rparr>)
          (poll_recording d) = Some rec \<and> mouseCheckInterval rec = Some j"
    by simp
next
  fix r rec p
  assume "recordings (w\<lparr>window_intervals := (window_intervals w)(i \<mapsto> c')\<rparr>) r = Some rec"
    "p \<in> set (finished_listeners (gif rec))"
  then show "p < next_deferred (w\<lparr>window_intervals := (window_intervals w)(i \<mapsto> c')\<rparr>)"
    using world_ok_listenerD [OF assms(1), of r rec p] by simp
qed

lemma world_ok_deferreds [simp]: "world_ok (w\<lparr>deferreds := ds\<rparr>) = world_ok w"
  by (simp add: world_ok_def)

lemma world_ok_init: "world_ok (init_world d)"
  by (simp add: world_ok_def init_world_def)

lemma stopRecording_SomeD:
  assumes "stopRecording rid w = Some (w', p)"
  shows "p = next_deferred w" "next_deferred w' = Suc (next_deferred w)"
    "\<exists>rec. recordings w rid = Some rec \<and> 
       window_intervals w' = clearInterval (mouseCheckInterval rec) (window_intervals w) \<and>
       recordings w' = (recordings w)(rid \<mapsto> rec\<lparr>gif := gif_render (gif_on_finished (next_deferred w) (gif rec))\<rparr>)"
    "onsync w' = None" "next_recording w' = next_recording w"
    "deferreds w' = (deferreds w)(next_deferred w \<mapsto> None)"
    "next_interval w' = next_interval w" "guac_display w' = guac_display w"
  using assms
  by (auto simp: stopRecording_def Let_def split: option.splits)

lemma world_ok_step: 
  assumes "world_ok w" shows "world_ok (step a w)"
proof (cases a)
  case Start
  define w' where "w' = fst (startRecording w)"
  have F: "recordings w' = (recordings w)(next_recording w \<mapsto>
        new_Recording\<lparr>mouseCheckInterval := Some (next_interval w)\<rparr>)"
    "next_recording w' = Suc (next_recording w)"
    "window_intervals w' = (window_intervals w)(next_interval w \<mapsto>
        \<lparr>poll_recording = next_recording w, poll_x = cursorX (guac_display w),
          poll_y = cursorY (guac_display w)\<rparr>)"
    "next_deferred w' = next_deferred w"
    by (simp_all add: w'_def startRecording_def Let_def)
  have fresh: "recordings w (next_recording w) = None"
    using assms by (auto simp: world_ok_def)
  have "world_ok w'"
    unfolding world_ok_def
  proof (intro conjI allI impI)
    fix r assume "recordings w' r \<noteq> None"
    with assms show "r < next_recording w'"
      by (auto simp: F world_ok_def less_Suc_eq split: if_splits)
  next
    fix i c assume ic: "window_intervals w' i = Some c"
    show "\<exists>rec. recordings w' (poll_recording c) = Some rec \<and> mouseCheckInterval rec = Some i"
    proof (cases "i = next_interval w")
      case True
      with ic show ?thesis by (auto simp: F)
    next
      case False
      with ic have "window_intervals w i = Some c" by (simp add: F)
      from world_ok_pollD [OF assms this] obtain rec where rec:
          "recordings w (poll_recording c) = Some rec" "mouseCheckInterval rec = Some i"
        by blast
      with fresh have "poll_recording c \<noteq> next_recording w" by auto
      with rec show ?thesis by (simp add: F)
    qed
  next
    fix r rec q assume "recordings w' r = Some rec" "q \<in> set (finished_listeners (gif rec))"
    with assms show "q < next_deferred w'"
      by (auto simp: F world_ok_def fresh_simps split: if_splits)
  qed
  with Start show ?thesis by (simp add: w'_def)
next
  case (Stop rid)
  show ?thesis
  proof (cases "stopRecording rid w")
    case None
    with Stop assms show ?thesis by simp
  next
    case (Some a)
    obtain w' p where a: "a = (w', p)" by (cases a)
    note S = stopRecording_SomeD [OF Some [unfolded a]]
    from S(3) obtain rec where rec: "recordings w rid = Some rec"
     "window_intervals w' = clearInterval (mouseCheckInterval rec) (window_intervals w)"
     "recordings w' = (recordings w)(rid \<mapsto> rec\<lparr>gif := gif_render (gif_on_finished (next_deferred w) (gif rec))\<rparr>)"
      by blast
    have "world_ok w'"
      unfolding world_ok_def
    proof (intro conjI allI impI)
      fix r assume "recordings w' r \<noteq> None"
      with rec assms show "r < next_recording w'"
        by (auto simp: S world_ok_def split: if_splits)
    next
      fix i c assume "window_intervals w' i = Some c"
      then have "window_intervals w i = Some c"
        by (auto simp: rec clearInterval_def split: option.splits if_splits)
      from world_ok_pollD [OF assms this] obtain rec' where
          "recordings w (poll_recording c) = Some rec'" "mouseCheckInterval rec' = Some i"
        by blast
      then show "\<exists>rec. recordings w' (poll_recording c) = Some rec \<and> mouseCheckInterval rec = Some i"
        using rec by auto
    next
      fix r rec' q assume "recordings w' r = Some rec'" "q \<in> set (finished_listeners (gif rec'))"
      with assms rec show "q < next_deferred w'"
        by (auto simp: S world_ok_def gif_render_def gif_on_finished_def less_Suc_eq split: if_splits)
    qed
    with Stop Some a show ?thesis by simp
  qed
next
  case (Sync ts now)
  with assms show ?thesis
    by (simp add: writeFrame_def world_ok_on_recording split: option.splits)
next
  case (Tick i now)
  show ?thesis
  proof (cases "window_intervals w i")
    case None
    with Tick assms show ?thesis by simp
  next
    case (Some c)
    define w1 where
      "w1 = on_recording (poll_recording c) (addFrame now (guac_display w) Undefined) w"
    have "world_ok w1"
      unfolding w1_def by (rule world_ok_on_recording [OF assms]) simp_all
    moreover have "window_intervals w1 i = Some c"
      using Some by (simp add: w1_def)
    ultimately have "world_ok (w1\<lparr>window_intervals := (window_intervals w1)(i \<mapsto>
        c\<lparr>poll_x := cursorX (guac_display w), poll_y := cursorY (guac_display w)\<rparr>)\<rparr>)"
      by (rule world_ok_repoll) simp
    then have "world_ok (checkMouse i c now w)"
      using assms unfolding checkMouse_def Let_def w1_def by (simp split: if_splits)
    with Tick Some show ?thesis by simp
  qed
next
  case (Display d)
  with assms show ?thesis by (simp add: world_ok_def)
next
  case (Finished r b)
  have "world_ok (on_recording r (\<lambda>r. r\<lparr>gif := gif_complete (gif r)\<rparr>) w)"
    by (rule world_ok_on_recording [OF assms]) (simp_all add: gif_complete_def)
  with Finished assms show ?thesis
    by (simp add: emit_finished_eq split: option.splits)
qed

lemma world_ok_run: "world_ok w \<Longrightarrow> world_ok (run as w)"
  by (induction as arbitrary: w) (simp_all add: world_ok_step)


lemma capture_state_step_detached:
  assumes "detached rid w" and "rid < next_recording w"
  shows "detached rid (step a w) \<and> rid < next_recording (step a w) \<and>
    map_option capture_state (recordings (step a w) rid)
      = map_option capture_state (recordings w rid)"
proof (cases a)
  case Start
  with assms show ?thesis
    by (auto simp: detached_def startRecording_def Let_def)
next
  case (Stop r)
  show ?thesis
  proof (cases "stopRecording r w")
    case None
    with Stop assms show ?thesis by simp
  next
    case (Some a)
    obtain w' p where a: "a = (w', p)" by (cases a)
    note S = stopRecording_SomeD [OF Some [unfolded a]]
    from S(3) obtain rec where rec: "recordings w r = Some rec"
      "window_intervals w' = clearInterval (mouseCheckInterval rec) (window_intervals w)"
      "recordings w' = (recordings w)(r \<mapsto>
         rec\<lparr>gif := gif_render (gif_on_finished (next_deferred w) (gif rec))\<rparr>)"
      by blast
    have "detached rid w'"
      using assms(1) by (auto simp: detached_def S rec clearInterval_def split: option.splits if_splits)
    moreover have "map_option capture_state (recordings w' rid)
        = map_option capture_state (recordings w rid)"
      using rec by simp
    ultimately show ?thesis
      using Stop Some a assms(2) by (simp add: S)
  qed
next
  case (Sync ts now)
  with assms show ?thesis
    by (auto simp: detached_def writeFrame_def split: option.splits)
next
  case (Tick i now)
  show ?thesis
  proof (cases "window_intervals w i")
    case None
    with Tick assms show ?thesis by simp
  next
    case (Some c)
    with assms(1) have "poll_recording c \<noteq> rid"
      by (simp add: detached_def)
    with assms Some have "detached rid (checkMouse i c now w) \<and>
        rid < next_recording (checkMouse i c now w) \<and>
        recordings (checkMouse i c now w) rid = recordings w rid"
      by (auto simp: detached_def checkMouse_def Let_def)
    with Tick Some show ?thesis by simp
  qed
next
  case (Display d)
  with assms show ?thesis by (simp add: detached_def)
next
  case (Finished r b)
  with assms show ?thesis
    by (simp add: detached_def emit_finished_eq split: option.splits)
qed

lemma capture_state_run_detached:
  "detached rid w \<Longrightarrow> rid < next_recording w \<Longrightarrow>
   detached rid (run as w) \<and>
   map_option capture_state (recordings (run as w) rid)
     = map_option capture_state (recordings w rid)"
proof (induction as arbitrary: w)
  case Nil
  then show ?case by simp
next
  case (Cons a as)
  from capture_state_step_detached [OF Cons.prems, of a]
  have 1: "detached rid (step a w)" "rid < next_recording (step a w)"
    "map_option capture_state (recordings (step a w) rid)
      = map_option capture_state (recordings w rid)"
    by simp_all
  from Cons.IH [OF 1(1,2)] 1(3) show ?case by simp
qed

lemma stopRecording_detaches:
  assumes "world_ok w" and "stopRecording rid w = Some (w', p)"
  shows "detached rid w'" and "rid < next_recording w'"
    and "map_option capture_state (recordings w' rid) = map_option capture_state (recordings w rid)"
proof -
  note S = stopRecording_SomeD [OF assms(2)]
  from S(3) obtain rec where rec: "recordings w rid = Some rec"
    "window_intervals w' = clearInterval (mouseCheckInterval rec) (window_intervals w)"
    "recordings w' = (recordings w)(rid \<mapsto>
       rec\<lparr>gif := gif_render (gif_on_finished (next_deferred w) (gif rec))\<rparr>)"
    by blast
  have "poll_recording c \<noteq> rid" if "window_intervals w' i = Some c" for i c
  proof
    assume eq: "poll_recording c = rid"
    from that have in_w: "window_intervals w i = Some c"
      and not_cleared: "mouseCheckInterval rec \<noteq> Some i"
      by (auto simp: rec clearInterval_def split: option.splits if_splits)
    from world_ok_pollD [OF assms(1) in_w] eq rec(1) have "mouseCheckInterval rec = Some i"
      by auto
    with not_cleared show False by contradiction
  qed
  then show "detached rid w'"
    by (simp add: detached_def S)
  from world_ok_recD [OF assms(1) rec(1)] show "rid < next_recording w'"
    by (simp add: S)
  show "map_option capture_state (recordings w' rid) = map_option capture_state (recordings w rid)"
    using rec by simp
qed

section \<open>After stopRecording: no more frames\<close>

text \<open>
  C8. Once \<^verbatim>\<open>stopRecording\<close> has returned for a Recording, whatever happens next
  (syncs, ticks of any interval, changes of the display, completion notifications, further
  calls of \<^verbatim>\<open>startRecording\<close> and \<^verbatim>\<open>stopRecording\<close>), no handler that captured
  the Recording is installed as \<^verbatim>\<open>onsync\<close> or registered as an interval, so nothing
  can call its \<^verbatim>\<open>addFrame\<close>; and its timestamps and the frames given to its encoder
  stay as they were when \<^verbatim>\<open>stopRecording\<close> was called.
\<close>

theorem stopRecording_ends_capture:
  assumes "stopRecording rid (run pre (init_world d)) = Some (w', p)"
  shows "detached rid (run post w') \<and>
    map_option capture_state (recordings (run post w') rid)
      = map_option capture_state (recordings (run pre (init_world d)) rid)"
proof -
  have "world_ok (run pre (init_world d))"
    by (rule world_ok_run [OF world_ok_init])
  from stopRecording_detaches [OF this assms]
    capture_state_run_detached [of rid w' post]
  show ?thesis by simp
qed

theorem stopRecording_ends_capture_witness:
  "\<exists>w' p. stopRecording 0 (run [Start, Sync (Num 1000) 5]
        (init_world \<lparr>cursorX = 0, cursorY = 0, contents = False\<rparr> :: (bool, nat) world))
      = Some (w', p) \<and>
    map_option capture_state (recordings (run
        [Sync (Num 2000) 50, Display \<lparr>cursorX = 3, cursorY = 0, contents = True\<rparr>, Tick 0 80]
        w') 0)
      = Some (Num 1000, Num 5, [(False, Num 0)])"
proof -
  let ?w = "run [Start, Sync (Num 1000) 5]
    (init_world \<lparr>cursorX = 0, cursorY = 0, contents = False\<rparr> :: (bool, nat) world)"
  let ?post = "[Sync (Num 2000) 50, Display \<lparr>cursorX = 3, cursorY = 0, contents = True\<rparr>,
    Tick 0 80] :: (bool, nat) action list"
  obtain w' p where S: "stopRecording 0 ?w = Some (w', p)"
    by (simp add: world_simps addFrame_simps fresh_simps)
  have before: "map_option capture_state (recordings ?w 0) = Some (Num 1000, Num 5, [(False, Num 0)])"
    by (simp add: world_simps addFrame_simps fresh_simps)
  from stopRecording_ends_capture [OF S, of ?post]
  have "map_option capture_state (recordings (run ?post w') 0)
      = map_option capture_state (recordings ?w 0)"
    by (rule conjunct2)
  then have "map_option capture_state (recordings (run ?post w') 0)
      = Some (Num 1000, Num 5, [(False, Num 0)])"
    by (simp only: before)
  with S show ?thesis by blast
qed

text \<open>The same events without the call of \<^verbatim>\<open>stopRecording\<close> do reach the
  Recording: the sync at 2000 and the poll after the cursor moved each add a frame.\<close>

lemma capture_continues_without_stop:
  "map_option capture_state (recordings (run
      [Start, Sync (Num 1000) 5, Sync (Num 2000) 50,
       Display \<lparr>cursorX = 3, cursorY = 0, contents = True\<rparr>, Tick 0 80]
      (init_world \<lparr>cursorX = 0, cursorY = 0, contents = False\<rparr> :: (bool, nat) world)) 0)
   = Some (Num 2030, Num 80, [(False, Num 0), (False, Num 1000), (True, Num 30)])"
  by (simp add: world_simps addFrame_simps fresh_simps)

section \<open>After stopRecording: the promise\<close>

lemma foldl_resolve:
  "foldl (\<lambda>ds q. resolve q b ds) ds ps p =
     (if p \<in> set ps \<and> ds p = Some None then Some (Some b) else ds p)"
  by (induction ps arbitrary: ds) (auto simp: resolve_def split: option.splits)

lemma settled_step:
  assumes "deferreds w p = Some (Some b)" and "p < next_deferred w"
  shows "deferreds (step a w) p = Some (Some b) \<and> p < next_deferred (step a w)"
proof (cases a)
  case Start
  with assms show ?thesis by (simp add: startRecording_def Let_def)
next
  case (Stop r)
  with assms show ?thesis
    by (auto simp: stopRecording_def Let_def split: option.splits)
next
  case (Sync ts now)
  with assms show ?thesis by (simp add: writeFrame_def split: option.splits)
next
  case (Tick i now)
  with assms show ?thesis by (simp add: checkMouse_def Let_def split: option.splits)
next
  case (Display d)
  with assms show ?thesis by simp
next
  case (Finished r b')
  with assms show ?thesis
    by (simp add: emit_finished_eq foldl_resolve split: option.splits)
qed

lemma settled_run:
  "deferreds w p = Some (Some b) \<Longrightarrow> p < next_deferred w \<Longrightarrow>
   deferreds (run as w) p = Some (Some b)"
proof (induction as arbitrary: w)
  case Nil
  then show ?case by simp
next
  case (Cons a as)
  from settled_step [OF Cons.prems, of a] Cons.IH [of "step a w"]
  show ?case by simp
qed

lemma listeningI:
  assumes "recordings w rid = Some rec" and "p \<in> set (finished_listeners (gif rec))"
    and "\<And>r rec'. recordings w r = Some rec' \<Longrightarrow> p \<in> set (finished_listeners (gif rec')) \<Longrightarrow> r = rid"
    and "deferreds w p = Some None" and "p < next_deferred w" and "rid < next_recording w"
  shows "listening rid p w"
  unfolding listening_def
proof (intro conjI allI impI)
  show "\<exists>rec. recordings w rid = Some rec \<and> p \<in> set (finished_listeners (gif rec))"
    using assms(1,2) by blast
  show "deferreds w p = Some None" by (rule assms(4))
  show "p < next_deferred w" by (rule assms(5))
  show "rid < next_recording w" by (rule assms(6))
  fix r rec'
  assume "recordings w r = Some rec'" "p \<in> set (finished_listeners (gif rec'))"
  then show "r = rid" by (rule assms(3))
qed

lemma listeningD:
  assumes "listening rid p w"
  shows "\<exists>rec. recordings w rid = Some rec \<and> p \<in> set (finished_listeners (gif rec))"
    and "\<And>r rec'. recordings w r = Some rec' \<Longrightarrow> p \<in> set (finished_listeners (gif rec')) \<Longrightarrow> r = rid"
    and "deferreds w p = Some None" and "p < next_deferred w" and "rid < next_recording w"
proof -
  from assms show "\<exists>rec. recordings w rid = Some rec \<and> p \<in> set (finished_listeners (gif rec))"
    by (simp add: listening_def)
  from assms show "deferreds w p = Some None" by (simp add: listening_def)
  from assms show "p < next_deferred w" by (simp add: listening_def)
  from assms show "rid < next_recording w" by (simp add: listening_def)
  fix r rec'
  assume "recordings w r = Some rec'" "p \<in> set (finished_listeners (gif rec'))"
  moreover from assms have "\<forall>r rec. recordings w r = Some rec \<longrightarrow>
      p \<in> set (finished_listeners (gif rec)) \<longrightarrow> r = rid"
    by (simp add: listening_def)
  ultimately show "r = rid" by blast
qed

lemma listening_on_recording:
  assumes "listening rid p w"
    and keep: "\<And>r. finished_listeners (gif (f r)) = finished_listeners (gif r)"
  shows "listening rid p (on_recording r f w)"
proof -
  note L = listeningD [OF assms(1)]
  from L(1) obtain rec where rec: "recordings w rid = Some rec"
    "p \<in> set (finished_listeners (gif rec))"
    by blast
  show ?thesis
  proof (rule listeningI)
    show "recordings (on_recording r f w) rid = Some (if rid = r then f rec else rec)"
      using rec(1) by auto
    show "p \<in> set (finished_listeners (gif (if rid = r then f rec else rec)))"
      using rec(2) by (simp add: keep)
    show "deferreds (on_recording r f w) p = Some None" using L(3) by simp
    show "p < next_deferred (on_recording r f w)" using L(4) by simp
    show "rid < next_recording (on_recording r f w)" using L(5) by simp
  next
    fix r' rec'
    assume a: "recordings (on_recording r f w) r' = Some rec'"
      "p \<in> set (finished_listeners (gif rec'))"
    from a(1) obtain rec0 where rec0: "recordings w r' = Some rec0"
      "finished_listeners (gif rec') = finished_listeners (gif rec0)"
      by (cases "r' = r") (auto simp: keep)
    from rec0(1) show "r' = rid"
      using a(2) unfolding rec0(2) by (rule L(2))
  qed
qed

lemma listening_deferreds:
  assumes "listening rid p w" and "ds p = deferreds w p"
  shows "listening rid p (w\<lparr>deferreds := ds\<rparr>)"
  using assms by (simp add: listening_def)

lemma listening_finished:
  assumes "listening rid p w" and "is_rendering rid w"
  shows "deferreds (step (Finished rid b) w) p = Some (Some b)"
    and "p < next_deferred (step (Finished rid b) w)"
proof -
  note L = listeningD [OF assms(1)]
  from L(1) obtain rec where rec: "recordings w rid = Some rec"
    "p \<in> set (finished_listeners (gif rec))"
    by blast
  from assms(2) rec(1) have "rendering (gif rec)"
    by (simp add: is_rendering_def)
  with rec(1) have w': "step (Finished rid b) w =
      (on_recording rid (\<lambda>r. r\<lparr>gif := gif_complete (gif r)\<rparr>) w)
        \<lparr>deferreds := foldl (\<lambda>ds q. resolve q b ds) (deferreds w)
           (finished_listeners (gif rec))\<rparr>"
    by (simp add: emit_finished_eq)
  show "deferreds (step (Finished rid b) w) p = Some (Some b)"
    unfolding w' using rec(2) L(3) by (simp add: foldl_resolve)
  show "p < next_deferred (step (Finished rid b) w)"
    unfolding w' using L(4) by simp
qed

lemma listening_start:
  assumes "listening rid p w"
  shows "listening rid p (fst (startRecording w))"
proof -
  define w' where "w' = fst (startRecording w)"
  have F: "recordings w' = (recordings w)(next_recording w \<mapsto>
        new_Recording\<lparr>mouseCheckInterval := Some (next_interval w)\<rparr>)"
    "next_recording w' = Suc (next_recording w)"
    "next_deferred w' = next_deferred w" "deferreds w' = deferreds w"
    by (simp_all add: w'_def startRecording_def Let_def)
  note L = listeningD [OF assms]
  from L(1) obtain rec where rec: "recordings w rid = Some rec"
    "p \<in> set (finished_listeners (gif rec))"
    by blast
  from L(5) have ne: "rid \<noteq> next_recording w" by simp
  have "listening rid p w'"
  proof (rule listeningI)
    show "recordings w' rid = Some rec" using rec(1) ne by (simp add: F)
    show "p \<in> set (finished_listeners (gif rec))" by (rule rec(2))
    show "deferreds w' p = Some None" using L(3) by (simp add: F)
    show "p < next_deferred w'" using L(4) by (simp add: F)
    show "rid < next_recording w'" using L(5) by (simp add: F)
  next
    fix r rec'
    assume a: "recordings w' r = Some rec'" "p \<in> set (finished_listeners (gif rec'))"
    show "r = rid"
    proof (cases "r = next_recording w")
      case True
      with a(1) have "finished_listeners (gif rec') = []"
        by (auto simp: F fresh_simps)
      with a(2) show ?thesis by simp
    next
      case False
      with a(1) have "recordings w r = Some rec'" by (simp add: F)
      then show ?thesis using a(2) by (rule L(2))
    qed
  qed
  then show ?thesis by (simp add: w'_def)
qed

lemma listening_stop:
  assumes "listening rid p w" and "stopRecording r w = Some (w', q)"
  shows "listening rid p w'"
proof -
  note S = stopRecording_SomeD [OF assms(2)]
  from S(3) obtain rec where rec: "recordings w r = Some rec"
    "recordings w' = (recordings w)(r \<mapsto>
       rec\<lparr>gif := gif_render (gif_on_finished (next_deferred w) (gif rec))\<rparr>)"
    by blast
  note L = listeningD [OF assms(1)]
  from L(1) obtain rec0 where rec0: "recordings w rid = Some rec0"
    "p \<in> set (finished_listeners (gif rec0))"
    by blast
  from L(4) have ne: "p \<noteq> next_deferred w" by simp
  have listeners: "finished_listeners (gif_render (gif_on_finished (next_deferred w) (gif rec)))
      = finished_listeners (gif rec) @ [next_deferred w]"
    by (simp add: gif_render_def gif_on_finished_def)
  show ?thesis
  proof (cases "r = rid")
    case True
    with rec rec0 have same: "rec0 = rec" by simp
    show ?thesis
    proof (rule listeningI)
      show "recordings w' rid = Some (rec\<lparr>gif := gif_render
          (gif_on_finished (next_deferred w) (gif rec))\<rparr>)"
        using True by (simp add: rec(2))
      show "p \<in> set (finished_listeners (gif (rec\<lparr>gif := gif_render
          (gif_on_finished (next_deferred w) (gif rec))\<rparr>)))"
        using rec0(2) same by (simp add: listeners)
      show "deferreds w' p = Some None" using L(3) ne by (simp add: S(6))
      show "p < next_deferred w'" using L(4) by (simp add: S(2))
      show "rid < next_recording w'" using L(5) by (simp add: S(5))
    next
      fix r' rec'
      assume a: "recordings w' r' = Some rec'" "p \<in> set (finished_listeners (gif rec'))"
      show "r' = rid"
      proof (cases "r' = r")
        case True
        with \<open>r = rid\<close> show ?thesis by simp
      next
        case False
        with a(1) have "recordings w r' = Some rec'" by (simp add: rec(2))
        then show ?thesis using a(2) by (rule L(2))
      qed
    qed
  next
    case False
    show ?thesis
    proof (rule listeningI)
      show "recordings w' rid = Some rec0" using False rec0(1) by (simp add: rec(2))
      show "p \<in> set (finished_listeners (gif rec0))" by (rule rec0(2))
      show "deferreds w' p = Some None" using L(3) ne by (simp add: S(6))
      show "p < next_deferred w'" using L(4) by (simp add: S(2))
      show "rid < next_recording w'" using L(5) by (simp add: S(5))
    next
      fix r' rec'
      assume a: "recordings w' r' = Some rec'" "p \<in> set (finished_listeners (gif rec'))"
      show "r' = rid"
      proof (cases "r' = r")
        case True
        with a(1) have "rec' = rec\<lparr>gif := gif_render
            (gif_on_finished (next_deferred w) (gif rec))\<rparr>"
          by (simp add: rec(2))
        with a(2) ne have "p \<in> set (finished_listeners (gif rec))"
          by (simp add: listeners)
        with rec(1) have "r = rid" by (rule L(2))
        with True show ?thesis by simp
      next
        case False
        with a(1) have "recordings w r' = Some rec'" by (simp add: rec(2))
        then show ?thesis using a(2) by (rule L(2))
      qed
    qed
  qed
qed


lemma listening_step:
  assumes "listening rid p w" and "\<And>b. a \<noteq> Finished rid b"
  shows "listening rid p (step a w)"
proof (cases a)
  case Start
  with listening_start [OF assms(1)] show ?thesis by simp
next
  case (Stop r)
  show ?thesis
  proof (cases "stopRecording r w")
    case None
    with Stop assms(1) show ?thesis by simp
  next
    case (Some a)
    obtain w' q where a: "a = (w', q)" by (cases a)
    from listening_stop [OF assms(1) Some [unfolded a]] Stop Some a
    show ?thesis by simp
  qed
next
  case (Sync ts now)
  show ?thesis
  proof (cases "onsync w")
    case None
    with Sync assms(1) show ?thesis by simp
  next
    case (Some r)
    have "listening rid p (on_recording r (addFrame now (guac_display w) ts) w)"
      by (rule listening_on_recording [OF assms(1)]) simp
    with Sync Some show ?thesis by (simp add: writeFrame_def)
  qed
next
  case (Tick i now)
  show ?thesis
  proof (cases "window_intervals w i")
    case None
    with Tick assms(1) show ?thesis by simp
  next
    case (Some c)
    define w1 where
      "w1 = on_recording (poll_recording c) (addFrame now (guac_display w) Undefined) w"
    have "listening rid p w1"
      unfolding w1_def by (rule listening_on_recording [OF assms(1)]) simp
    then have "listening rid p (w1\<lparr>window_intervals := (window_intervals w1)(i \<mapsto>
        c\<lparr>poll_x := cursorX (guac_display w), poll_y := cursorY (guac_display w)\<rparr>)\<rparr>)"
      by (simp add: listening_def)
    then have "listening rid p (checkMouse i c now w)"
      using assms(1) unfolding checkMouse_def Let_def w1_def by (simp split: if_splits)
    with Tick Some show ?thesis by simp
  qed
next
  case (Display d)
  with assms(1) show ?thesis by (simp add: listening_def)
next
  case (Finished r b)
  with assms(2) have ne: "r \<noteq> rid" by auto
  show ?thesis
  proof (cases "recordings w r")
    case None
    with Finished assms(1) show ?thesis by (simp add: emit_finished_eq)
  next
    case (Some rec)
    note L = listeningD [OF assms(1)]
    define w1 where "w1 = on_recording r (\<lambda>r. r\<lparr>gif := gif_complete (gif r)\<rparr>) w"
    have "p \<notin> set (finished_listeners (gif rec))"
      using L(2) [OF Some] ne by blast
    then have same: "foldl (\<lambda>ds q. resolve q b ds) (deferreds w)
        (finished_listeners (gif rec)) p = deferreds w1 p"
      by (simp add: foldl_resolve w1_def)
    have "listening rid p w1"
      unfolding w1_def
      by (rule listening_on_recording [OF assms(1)]) (simp add: gif_complete_def)
    then have "listening rid p (w1\<lparr>deferreds := foldl (\<lambda>ds q. resolve q b ds) (deferreds w)
        (finished_listeners (gif rec))\<rparr>)"
      using same by (simp add: listening_def)
    then have "listening rid p (emit_finished r b w)"
      using Some assms(1) by (simp add: emit_finished_eq w1_def)
    with Finished show ?thesis by simp
  qed
qed

lemma is_rendering_on_recording:
  assumes "is_rendering rid w" and "\<And>x. rendering (gif (f x)) = rendering (gif x)"
  shows "is_rendering rid (on_recording r f w)"
proof (cases "recordings w rid")
  case None
  with assms(1) show ?thesis by (simp add: is_rendering_def)
next
  case (Some rec)
  with assms(1) have "rendering (gif rec)"
    by (simp add: is_rendering_def)
  then have "rendering (gif (f rec))"
    by (simp only: assms(2))
  with Some \<open>rendering (gif rec)\<close> show ?thesis
    by (cases "r = rid") (simp_all add: is_rendering_def)
qed

lemma is_rendering_intervals [simp]:
  "is_rendering rid (w\<lparr>window_intervals := t\<rparr>) = is_rendering rid w"
  by (simp add: is_rendering_def)

lemma is_rendering_step:
  assumes "is_rendering rid w" and "rid < next_recording w" and "\<And>b. a \<noteq> Finished rid b"
  shows "is_rendering rid (step a w)"
proof (cases a)
  case Start
  with assms(1,2) show ?thesis
    by (simp add: is_rendering_def startRecording_def Let_def)
next
  case (Stop r)
  show ?thesis
  proof (cases "stopRecording r w")
    case None
    with Stop assms(1) show ?thesis by simp
  next
    case (Some a)
    obtain w' q where a: "a = (w', q)" by (cases a)
    note S = stopRecording_SomeD [OF Some [unfolded a]]
    from S(3) obtain rec where rec: "recordings w r = Some rec"
      "recordings w' = (recordings w)(r \<mapsto>
         rec\<lparr>gif := gif_render (gif_on_finished (next_deferred w) (gif rec))\<rparr>)"
      by blast
    from assms(1) have "is_rendering rid w'"
      by (simp add: is_rendering_def rec(2) gif_render_def)
    with Stop Some a show ?thesis by simp
  qed
next
  case (Sync ts now)
  show ?thesis
  proof (cases "onsync w")
    case None
    with Sync assms(1) show ?thesis by simp
  next
    case (Some r)
    have "is_rendering rid (on_recording r (addFrame now (guac_display w) ts) w)"
      by (rule is_rendering_on_recording [OF assms(1)]) simp
    with Sync Some show ?thesis by (simp add: writeFrame_def)
  qed
next
  case (Tick i now)
  show ?thesis
  proof (cases "window_intervals w i")
    case None
    with Tick assms(1) show ?thesis by simp
  next
    case (Some c)
    have "is_rendering rid
        (on_recording (poll_recording c) (addFrame now (guac_display w) Undefined) w)"
      by (rule is_rendering_on_recording [OF assms(1)]) simp
    then have "is_rendering rid (checkMouse i c now w)"
      using assms(1) by (simp add: checkMouse_def Let_def)
    with Tick Some show ?thesis by simp
  qed
next
  case (Display d)
  with assms(1) show ?thesis by (simp add: is_rendering_def)
next
  case (Finished r b)
  with assms(3) have "r \<noteq> rid" by auto
  with Finished assms(1) show ?thesis
    by (simp add: is_rendering_def emit_finished_eq split: option.splits)
qed

lemma listening_run:
  "listening rid p w \<Longrightarrow> is_rendering rid w \<Longrightarrow>
   deferreds (run as w) p = Some (first_finished rid as)"
proof (induction as arbitrary: w)
  case Nil
  then show ?case by (simp add: listeningD(3))
next
  case (Cons a as)
  show ?case
  proof (cases "\<exists>b. a = Finished rid b")
    case True
    then obtain b where a: "a = Finished rid b" by blast
    from listening_finished [OF Cons.prems, of b]
    have "deferreds (run as (step a w)) p = Some (Some b)"
      unfolding a by (rule settled_run)
    with a show ?thesis by simp
  next
    case False
    then have ne: "\<And>b. a \<noteq> Finished rid b" by blast
    have "listening rid p (step a w)"
      by (rule listening_step [OF Cons.prems(1) ne])
    moreover have "is_rendering rid (step a w)"
      by (rule is_rendering_step [OF Cons.prems(2) listeningD(5) [OF Cons.prems(1)] ne])
    ultimately have "deferreds (run as (step a w)) p = Some (first_finished rid as)"
      by (rule Cons.IH)
    with False show ?thesis
      by (cases a) auto
  qed
qed

lemma stopRecording_renders:
  assumes "stopRecording rid w = Some (w', p)"
  shows "is_rendering rid w'"
proof -
  from stopRecording_SomeD(3) [OF assms] obtain rec where
    "recordings w' = (recordings w)(rid \<mapsto>
       rec\<lparr>gif := gif_render (gif_on_finished (next_deferred w) (gif rec))\<rparr>)"
    by blast
  then show ?thesis
    by (simp add: is_rendering_def gif_render_def)
qed

lemma first_finished_append:
  "first_finished rid (xs @ ys) =
     (case first_finished rid xs of None \<Rightarrow> first_finished rid ys | Some b \<Rightarrow> Some b)"
proof (induction xs)
  case Nil
  then show ?case by simp
next
  case (Cons a xs)
  then show ?case by (cases a) simp_all
qed

lemma stopRecording_listens:
  assumes "world_ok w" and "stopRecording rid w = Some (w', p)"
  shows "listening rid p w'"
proof -
  note S = stopRecording_SomeD [OF assms(2)]
  from S(3) obtain rec where rec: "recordings w rid = Some rec"
    "recordings w' = (recordings w)(rid \<mapsto>
       rec\<lparr>gif := gif_render (gif_on_finished (next_deferred w) (gif rec))\<rparr>)"
    by blast
  have listeners: "finished_listeners (gif_render (gif_on_finished (next_deferred w) (gif rec)))
      = finished_listeners (gif rec) @ [next_deferred w]"
    by (simp add: gif_render_def gif_on_finished_def)
  show ?thesis
  proof (rule listeningI)
    show "recordings w' rid = Some (rec\<lparr>gif := gif_render
        (gif_on_finished (next_deferred w) (gif rec))\<rparr>)"
      by (simp add: rec(2))
    show "p \<in> set (finished_listeners (gif (rec\<lparr>gif := gif_render
        (gif_on_finished (next_deferred w) (gif rec))\<rparr>)))"
      by (simp add: listeners S(1))
    show "deferreds w' p = Some None" by (simp add: S(1,6))
    show "p < next_deferred w'" by (simp add: S(1,2))
    from world_ok_recD [OF assms(1) rec(1)] show "rid < next_recording w'"
      by (simp add: S(5))
  next
    fix r rec'
    assume a: "recordings w' r = Some rec'" "p \<in> set (finished_listeners (gif rec'))"
    show "r = rid"
    proof (rule ccontr)
      assume "r \<noteq> rid"
      with a(1) have "recordings w r = Some rec'" by (simp add: rec(2))
      from world_ok_listenerD [OF assms(1) this a(2)] show False
        by (simp add: S(1))
    qed
  qed
qed

text \<open>
  C9. When \<^verbatim>\<open>stopRecording\<close> returns, the encoder of the Recording has been asked to
  render and the promise returned is pending. After any further events the promise holds
  the blob of the first completion of that encoder, and is pending as long as the
  encoder has not completed: so it is resolved as soon as the encoder completes, with
  the artifact of that completion, and nothing that follows (later completions, other
  encoders, other calls) changes it.
\<close>

theorem stopRecording_promise:
  assumes "stopRecording rid (run pre (init_world d)) = Some (w', p)"
  shows "is_rendering rid w' \<and>
    deferreds w' p = Some None \<and>
    deferreds (run post w') p = Some (first_finished rid post) \<and>
    deferreds (run (post @ [Finished rid b]) w') p =
      Some (Some (case first_finished rid post of None \<Rightarrow> b | Some b' \<Rightarrow> b'))"
proof -
  have "world_ok (run pre (init_world d))"
    by (rule world_ok_run [OF world_ok_init])
  from stopRecording_listens [OF this assms] have L: "listening rid p w'" .
  have R: "is_rendering rid w'"
    by (rule stopRecording_renders [OF assms])
  have "deferreds (run (post @ [Finished rid b]) w') p =
      Some (Some (case first_finished rid post of None \<Rightarrow> b | Some b' \<Rightarrow> b'))"
    using listening_run [OF L R, of "post @ [Finished rid b]"]
    by (simp add: first_finished_append split: option.splits)
  with listening_run [OF L R, of post] listeningD(3) [OF L] R show ?thesis
    by simp
qed

theorem stopRecording_promise_witness:
  "\<exists>w' p. stopRecording 0 (run [Start, Sync (Num 1000) 5]
        (init_world \<lparr>cursorX = 0, cursorY = 0, contents = False\<rparr> :: (bool, nat) world))
      = Some (w', p) \<and>
    is_rendering 0 w' \<and>
    deferreds w' p = Some None \<and>
    deferreds (run [Sync (Num 2000) 50] w') p = Some None \<and>
    deferreds (run ([Sync (Num 2000) 50] @ [Finished 0 7]) w') p = Some (Some 7) \<and>
    deferreds (run [Sync (Num 2000) 50, Finished 0 7, Stop 0, Finished 0 9] w') p = Some (Some 7)"
proof -
  let ?w = "run [Start, Sync (Num 1000) 5]
    (init_world \<lparr>cursorX = 0, cursorY = 0, contents = False\<rparr> :: (bool, nat) world)"
  let ?post1 = "[Sync (Num 2000) 50] :: (bool, nat) action list"
  let ?post2 = "[Sync (Num 2000) 50, Finished 0 7, Stop 0, Finished 0 9] :: (bool, nat) action list"
  obtain w' p where S: "stopRecording 0 ?w = Some (w', p)"
    by (simp add: world_simps addFrame_simps fresh_simps)
  have first: "first_finished 0 ?post1 = None" "first_finished 0 ?post2 = Some 7"
    by simp_all
  from stopRecording_promise [OF S, of ?post1 7] stopRecording_promise [OF S, of ?post2 7]
  have "is_rendering 0 w' \<and> deferreds w' p = Some None \<and>
      deferreds (run ?post1 w') p = Some None \<and>
      deferreds (run (?post1 @ [Finished 0 7]) w') p = Some (Some 7) \<and>
      deferreds (run ?post2 w') p = Some (Some 7)"
    by (simp only: first option.simps)
  with S show ?thesis by blast
qed

text \<open>Read along a trace: the promise stays pending up to the first completion of the
  Recording's encoder, takes its blob at that step, and keeps it whatever follows.\<close>

lemma promise_settles_once:
  assumes "stopRecording rid (run pre (init_world d)) = Some (w', p)"
    and "first_finished rid xs = None"
  shows "deferreds (run xs w') p = Some None"
    and "deferreds (run (xs @ Finished rid b # ys) w') p = Some (Some b)"
proof -
  have "world_ok (run pre (init_world d))"
    by (rule world_ok_run [OF world_ok_init])
  from stopRecording_listens [OF this assms(1)] have L: "listening rid p w'" .
  have R: "is_rendering rid w'"
    by (rule stopRecording_renders [OF assms(1)])
  from listening_run [OF L R, of xs] assms(2)
  show "deferreds (run xs w') p = Some None" by simp
  from listening_run [OF L R, of "xs @ Finished rid b # ys"] assms(2)
  show "deferreds (run (xs @ Finished rid b # ys) w') p = Some (Some b)"
    by (simp add: first_finished_append)
qed

text \<open>An encoder that was not asked to render never notifies: without the call of
  \<^verbatim>\<open>stopRecording\<close> a completion event finds nothing to do.\<close>

lemma no_completion_without_render:
  "step (Finished 0 (7::nat))
     (run [Start, Sync (Num 1000) 5]
        (init_world \<lparr>cursorX = 0, cursorY = 0, contents = False\<rparr> :: (bool, nat) world))
   = run [Start, Sync (Num 1000) 5]
        (init_world \<lparr>cursorX = 0, cursorY = 0, contents = False\<rparr>)"
  by (simp add: world_simps addFrame_simps fresh_simps)

end
